theory Spec2Isabelle
  imports Complex_Main
begin

section \<open>The data model of \<open>data_transfer_simulation.py\<close>\<close>

text \<open>
  The module constants. \<open>NUM_CHUNKS\<close> is used both as a length (\<open>range(NUM_CHUNKS)\<close>)
  and as a bound on counts, so it is a natural number here.
\<close>

definition NUM_CHUNKS :: nat where
  "NUM_CHUNKS = 16"

definition DEFAULT_SERVER_COUNT :: int where
  "DEFAULT_SERVER_COUNT = 50"

text \<open>
  The two dataclasses and the simulation object. The Python field \<open>id\<close> of both classes
  is written \<open>c_id\<close> and \<open>s_id\<close>. Python integers are unbounded, hence \<open>int\<close>.
\<close>

record Chunk =
  c_id :: int
  present :: bool

record Server =
  s_id :: int
  chunks :: "Chunk list"
  is_transmitting :: bool
  transmitting_to :: "int option"

record Sim =
  num_servers :: int
  current_tick :: int
  servers :: "Server list"

text \<open>The exceptions the module can raise: a zero divisor and a list index out of range.\<close>

datatype py_error = ZeroDivisionError | IndexError

text \<open>
  One transfer of a tick: the source server, the target server and the index of the chunk.
  The Python code performs a transfer by assignment and keeps no list of them; the two
  strategies below return, beside the new state, the transfers they performed, in order.
\<close>

type_synonym transfer = "int \<times> int \<times> int"

definition t_source :: "transfer \<Rightarrow> int" where
  "t_source tr = fst tr"

definition t_target :: "transfer \<Rightarrow> int" where
  "t_target tr = fst (snd tr)"

definition t_chunk :: "transfer \<Rightarrow> int" where
  "t_chunk tr = snd (snd tr)"

text \<open>
  \<open>__init__\<close>: \<open>range(num_servers)\<close> is empty for \<open>num_servers \<le> 0\<close>, which is what
  \<open>nat\<close> gives. Server 0 gets every chunk, every other server none.
\<close>

definition init :: "int \<Rightarrow> Sim" where
  "init n =
     \<lparr>num_servers = n, current_tick = 0,
      servers = map (\<lambda>i. \<lparr>s_id = int i,
                           chunks = map (\<lambda>j. \<lparr>c_id = int j, present = (i = 0)\<rparr>) [0..<NUM_CHUNKS],
                           is_transmitting = False, transmitting_to = None\<rparr>) [0..<nat n]\<rparr>"

section \<open>List indexing and the two assignments of a transfer\<close>

text \<open>
  Python's \<open>xs[i]\<close> on a list of length \<open>len\<close>: a negative index counts from the end,
  anything outside \<open>-len \<le> i < len\<close> raises \<open>IndexError\<close>. The result is the position read.
\<close>

definition py_index :: "nat \<Rightarrow> int \<Rightarrow> py_error + nat" where
  "py_index len i =
     (if 0 \<le> i \<and> i < int len then Inr (nat i)
      else if i < 0 \<and> - int len \<le> i then Inr (nat (int len + i))
      else Inl IndexError)"

text \<open>\<open>servers[i].chunks[j].present = True\<close>\<close>

definition set_present :: "Server list \<Rightarrow> int \<Rightarrow> int \<Rightarrow> py_error + Server list" where
  "set_present svs i j =
     (case py_index (length svs) i of
        Inl e \<Rightarrow> Inl e
      | Inr p \<Rightarrow>
          (case py_index (length (chunks (svs ! p))) j of
             Inl e \<Rightarrow> Inl e
           | Inr q \<Rightarrow>
               Inr (svs[p := (svs ! p)\<lparr>chunks :=
                      (chunks (svs ! p))[q := (chunks (svs ! p) ! q)\<lparr>present := True\<rparr>]\<rparr>])))"

text \<open>\<open>servers[i].is_transmitting = True; servers[i].transmitting_to = t\<close>\<close>

definition set_transmitting :: "Server list \<Rightarrow> int \<Rightarrow> int \<Rightarrow> py_error + Server list" where
  "set_transmitting svs i t =
     (case py_index (length svs) i of
        Inl e \<Rightarrow> Inl e
      | Inr p \<Rightarrow> Inr (svs[p := (svs ! p)\<lparr>is_transmitting := True, transmitting_to := Some t\<rparr>]))"

section \<open>The naive strategy\<close>

text \<open>
  \<open>naive_transfer\<close>. Python's \<open>%\<close> and \<open>//\<close> on integers are floor division, as
  \<open>mod\<close> and \<open>div\<close> on \<open>int\<close> are; a zero divisor raises.
\<close>

definition naive_transfer :: "Sim \<Rightarrow> py_error + Sim \<times> transfer list" where
  "naive_transfer s =
     (if num_servers s - 1 = 0 then Inl ZeroDivisionError
      else
        let target_server_id = current_tick s mod (num_servers s - 1) + 1;
            chunk_id = current_tick s div (num_servers s - 1)
        in if chunk_id < int NUM_CHUNKS then
             (case set_present (servers s) target_server_id chunk_id of
                Inl e \<Rightarrow> Inl e
              | Inr svs1 \<Rightarrow>
                  (case set_transmitting svs1 0 target_server_id of
                     Inl e \<Rightarrow> Inl e
                   | Inr svs2 \<Rightarrow> Inr (s\<lparr>servers := svs2\<rparr>, [(0, target_server_id, chunk_id)])))
           else Inr (s, []))"

section \<open>The smart strategy\<close>

text \<open>
  Step 1. \<open>available_servers\<close> is a list of references to server objects; a server object
  is identified here by its position in \<open>self.servers\<close>, and every later read goes through
  the current list, as a read through the reference does.
\<close>

definition has_chunks :: "Server \<Rightarrow> bool" where
  "has_chunks sv = list_ex present (chunks sv)"

definition available_servers :: "Server list \<Rightarrow> nat list" where
  "available_servers svs =
     filter (\<lambda>p. has_chunks (svs ! p) \<and> \<not> is_transmitting (svs ! p)) [0..<length svs]"

text \<open>Step 3, the body of the loop over \<open>potential_target\<close>.\<close>

definition target_chunk_count :: "Server \<Rightarrow> nat" where
  "target_chunk_count pt = length (filter present (chunks pt))"

definition has_needed_chunks :: "Server \<Rightarrow> Server \<Rightarrow> bool" where
  "has_needed_chunks src pt =
     list_ex (\<lambda>(source_chunk, target_chunk). present source_chunk \<and> \<not> present target_chunk)
       (zip (chunks src) (chunks pt))"

definition consider_target ::
  "Server list \<Rightarrow> nat \<Rightarrow> nat \<Rightarrow> nat option \<times> nat \<Rightarrow> nat option \<times> nat" where
  "consider_target svs sp tp acc =
     (case acc of (best_target, least_chunks) \<Rightarrow>
        if s_id (svs ! tp) = s_id (svs ! sp) then acc
        else if has_needed_chunks (svs ! sp) (svs ! tp)
                \<and> target_chunk_count (svs ! tp) < least_chunks
                \<and> \<not> is_transmitting (svs ! tp)
             then (Some tp, target_chunk_count (svs ! tp))
             else acc)"

definition find_best_target :: "Server list \<Rightarrow> nat \<Rightarrow> nat option" where
  "find_best_target svs sp =
     fst (fold (consider_target svs sp) [0..<length svs] (None, NUM_CHUNKS))"

text \<open>Step 4: the first index at which the source has a chunk that the target lacks.\<close>

definition chunk_to_send :: "Server \<Rightarrow> Server \<Rightarrow> nat option" where
  "chunk_to_send src tgt =
     map_option fst
       (find (\<lambda>(i, source_chunk, target_chunk). present source_chunk \<and> \<not> present target_chunk)
          (enumerate 0 (zip (chunks src) (chunks tgt))))"

text \<open>
  The body of the loop over \<open>available_servers\<close> for the source at position \<open>sp\<close>. A
  dataclass instance is always truthy, so \<open>if best_target\<close> tests for \<open>None\<close> only. The two
  writes index \<open>self.servers\<close> by the \<open>id\<close> fields.
\<close>

definition send_from ::
  "nat \<Rightarrow> Server list \<times> transfer list \<Rightarrow> py_error + Server list \<times> transfer list" where
  "send_from sp st =
     (case st of (svs, sent) \<Rightarrow>
        (case find_best_target svs sp of
           None \<Rightarrow> Inr (svs, sent)
         | Some tp \<Rightarrow>
             (case chunk_to_send (svs ! sp) (svs ! tp) of
                None \<Rightarrow> Inr (svs, sent)
              | Some c \<Rightarrow>
                  (case set_present svs (s_id (svs ! tp)) (int c) of
                     Inl e \<Rightarrow> Inl e
                   | Inr svs1 \<Rightarrow>
                       (case set_transmitting svs1 (s_id (svs ! sp)) (s_id (svs ! tp)) of
                          Inl e \<Rightarrow> Inl e
                        | Inr svs2 \<Rightarrow>
                            Inr (svs2, sent @ [(s_id (svs ! sp), s_id (svs ! tp), int c)]))))))"

fun smart_pass ::
  "nat list \<Rightarrow> Server list \<times> transfer list \<Rightarrow> py_error + Server list \<times> transfer list" where
  "smart_pass [] st = Inr st"
| "smart_pass (sp # sps) st =
     (case send_from sp st of Inl e \<Rightarrow> Inl e | Inr st' \<Rightarrow> smart_pass sps st')"

definition smart_transfer :: "Sim \<Rightarrow> py_error + Sim \<times> transfer list" where
  "smart_transfer s =
     (case smart_pass (available_servers (servers s)) (servers s, []) of
        Inl e \<Rightarrow> Inl e
      | Inr (svs, sent) \<Rightarrow> Inr (s\<lparr>servers := svs\<rparr>, sent))"

section \<open>The engine\<close>

definition is_complete :: "Sim \<Rightarrow> bool" where
  "is_complete s = list_all (\<lambda>sv. list_all present (chunks sv)) (servers s)"

text \<open>The strategy chosen by the algorithm name: anything but \<open>'naive'\<close> is the smart one.\<close>

definition strategy :: "string \<Rightarrow> Sim \<Rightarrow> py_error + Sim \<times> transfer list" where
  "strategy algorithm s =
     (if algorithm = ''naive'' then naive_transfer s else smart_transfer s)"

definition reset_server :: "Server \<Rightarrow> Server" where
  "reset_server sv = sv\<lparr>is_transmitting := False, transmitting_to := None\<rparr>"

text \<open>One iteration of the loop of \<open>run_simulation\<close>: the strategy, the reset, the tick.\<close>

definition tick :: "string \<Rightarrow> Sim \<Rightarrow> py_error + Sim" where
  "tick algorithm s =
     (case strategy algorithm s of
        Inl e \<Rightarrow> Inl e
      | Inr (s', sent) \<Rightarrow>
          Inr (s'\<lparr>servers := map reset_server (servers s'),
                  current_tick := current_tick s' + 1\<rparr>))"

text \<open>
  \<open>run_simulation\<close>. The loop may in principle run forever, so the result is an option:
  \<open>None\<close> is a run that never returns, \<open>Some (Inl e)\<close> a run that raises \<open>e\<close>,
  \<open>Some (Inr t)\<close> a run that returns the tick count \<open>t\<close>.
\<close>

partial_function (option) run_simulation :: "Sim \<Rightarrow> string \<Rightarrow> (py_error + int) option" where
  "run_simulation s algorithm =
     (if is_complete s then Some (Inr (current_tick s))
      else (case tick algorithm s of
              Inl e \<Rightarrow> Some (Inl e)
            | Inr s' \<Rightarrow> run_simulation s' algorithm))"

declare run_simulation.simps [code]

section \<open>Notions used in the statements\<close>

text \<open>
  \<open>never_lost svs svs'\<close>: the two server lists have the same shape, and every chunk
  present in \<open>svs\<close> is present at the same server and index in \<open>svs'\<close>.
\<close>

definition never_lost :: "Server list \<Rightarrow> Server list \<Rightarrow> bool" where
  "never_lost svs svs' =
     list_all2 (\<lambda>sv sv'. list_all2 (\<lambda>c c'. present c \<longrightarrow> present c') (chunks sv) (chunks sv'))
       svs svs'"

text \<open>
  \<open>run_reaches algorithm s s'\<close>: the loop of \<open>run_simulation\<close>, started in \<open>s\<close>,
  has \<open>s'\<close> as its state at the head of some iteration. An iteration happens only when
  the state is not complete and the strategy raises nothing.
\<close>

inductive run_reaches :: "string \<Rightarrow> Sim \<Rightarrow> Sim \<Rightarrow> bool" for algorithm :: string and s :: Sim where
  start: "run_reaches algorithm s s"
| step: "run_reaches algorithm s s1 \<Longrightarrow> \<not> is_complete s1 \<Longrightarrow> tick algorithm s1 = Inr s2 \<Longrightarrow>
         run_reaches algorithm s s2"

section \<open>The states that occur in runs\<close>

text \<open>
  In every state of a run a server holds an initial segment of the chunks. Such a list of
  servers is given by the number of servers, the number of chunks held by each server, and
  the \<open>transmitting_to\<close> field of each server (\<open>is_transmitting\<close> holds exactly when
  that field is set).
\<close>

definition chunks_upto :: "nat \<Rightarrow> Chunk list" where
  "chunks_upto h = map (\<lambda>j. \<lparr>c_id = int j, present = (j < h)\<rparr>) [0..<NUM_CHUNKS]"

definition server_with :: "nat \<Rightarrow> nat \<Rightarrow> int option \<Rightarrow> Server" where
  "server_with i h t =
     \<lparr>s_id = int i, chunks = chunks_upto h, is_transmitting = (t \<noteq> None), transmitting_to = t\<rparr>"

definition servers_with :: "nat \<Rightarrow> (nat \<Rightarrow> nat) \<Rightarrow> (nat \<Rightarrow> int option) \<Rightarrow> Server list" where
  "servers_with n h tt = map (\<lambda>i. server_with i (h i) (tt i)) [0..<n]"

text \<open>
  What step 3 of the smart strategy asks of a target \<open>tp\<close> for the source \<open>sp\<close>, in
  terms of the numbers of chunks held.
\<close>

definition eligible :: "(nat \<Rightarrow> nat) \<Rightarrow> (nat \<Rightarrow> int option) \<Rightarrow> nat \<Rightarrow> nat \<Rightarrow> bool" where
  "eligible h tt sp tp \<longleftrightarrow> tp \<noteq> sp \<and> h tp < h sp \<and> h tp < NUM_CHUNKS \<and> tt tp = None"

text \<open>
  The two shapes. \<open>seeding m\<close>: server 0 holds everything, servers \<open>1..m-1\<close> hold chunk
  0 only, the others nothing. \<open>filling k r\<close>: server 0 holds everything, servers \<open>1..r\<close>
  hold \<open>k + 1\<close> chunks, the others \<open>k\<close>.
\<close>

definition seeding :: "nat \<Rightarrow> nat \<Rightarrow> nat" where
  "seeding m i = (if i = 0 then NUM_CHUNKS else if i < m then 1 else 0)"

definition filling :: "nat \<Rightarrow> nat \<Rightarrow> nat \<Rightarrow> nat" where
  "filling k r i = (if i = 0 then NUM_CHUNKS else if i \<le> r then Suc k else k)"

text \<open>
  Servers \<open>0..d-1\<close> each transmit to the server \<open>off\<close> positions further, and the
  transfers this makes of chunk \<open>c\<close>.
\<close>

definition sending_to :: "nat \<Rightarrow> nat \<Rightarrow> nat \<Rightarrow> int option" where
  "sending_to d off i = (if i < d then Some (int (i + off)) else None)"

definition transfers_of :: "nat \<Rightarrow> nat \<Rightarrow> nat \<Rightarrow> transfer list" where
  "transfers_of d off c = map (\<lambda>i. (int i, int (i + off), int c)) [0..<d]"

definition seeding_state :: "nat \<Rightarrow> nat \<Rightarrow> int \<Rightarrow> Sim" where
  "seeding_state n m t =
     \<lparr>num_servers = int n, current_tick = t, servers = servers_with n (seeding m) (\<lambda>_. None)\<rparr>"

definition filling_state :: "nat \<Rightarrow> nat \<Rightarrow> nat \<Rightarrow> int \<Rightarrow> Sim" where
  "filling_state n c r t =
     \<lparr>num_servers = int n, current_tick = t, servers = servers_with n (filling c r) (\<lambda>_. None)\<rparr>"

text \<open>
  The number of ticks the smart strategy needs to give every server its first chunk when
  \<open>m\<close> of \<open>n\<close> servers hold one: the holders double each tick.
\<close>

function doublings :: "nat \<Rightarrow> nat \<Rightarrow> nat" where
  "doublings m n = (if m = 0 \<or> n \<le> m then 0 else Suc (doublings (2 * m) n))"
  by pat_completeness auto
termination
  by (relation "measure (\<lambda>(m, n). n - m)") auto

declare doublings.simps [simp del]

section \<open>Runs that start complete\<close>

lemma run_simulation_complete:
  "is_complete s \<Longrightarrow> run_simulation s algorithm = Some (Inr (current_tick s))"
  by (subst run_simulation.simps) simp

lemma init_tick0: "current_tick (init n) = 0"
  by (simp add: init_def)

lemma init_complete: "n \<le> 1 \<Longrightarrow> is_complete (init n)"
proof -
  assume "n \<le> 1"
  then have "nat n = 0 \<or> nat n = 1" by linarith
  then show ?thesis
    by (auto simp: is_complete_def init_def list_all_iff)
qed

text \<open>
  C10: for every \<open>num_servers \<le> 1\<close> (zero and negative values included) and every
  algorithm name, \<open>is_complete\<close> already holds of the freshly constructed simulation, so
  the loop of \<open>run_simulation\<close> is never entered: the call returns 0 and raises nothing.
\<close>

theorem small_population_returns_zero:
  "n \<le> 1 \<Longrightarrow> is_complete (init n) \<and> run_simulation (init n) algorithm = Some (Inr 0)"
  by (simp add: init_complete run_simulation_complete init_tick0)

theorem small_population_returns_zero_witness:
  "(1::int) \<le> 1 \<and> is_complete (init 1) \<and> run_simulation (init 1) ''smart'' = Some (Inr 0)"
  using small_population_returns_zero [of 1 "''smart''"] by simp

lemma naive_transfer_init_small:
  assumes "n < 2"
  shows "naive_transfer (init n) = Inl (if n = 1 then ZeroDivisionError else IndexError)"
proof (cases "n = 1")
  case True
  then show ?thesis by (simp add: naive_transfer_def init_def)
next
  case False
  with assms have "n \<le> 0" by simp
  then have "nat n = 0" by simp
  with False show ?thesis
    by (simp add: naive_transfer_def init_def Let_def NUM_CHUNKS_def set_present_def py_index_def)
qed

text \<open>
  C4, as stated, asks for a configuration error when \<open>num_servers < 2\<close> and the naive
  strategy is run. The code has no such check: with one server the run returns 0.
\<close>

theorem naive_single_server_returns:
  "run_simulation (init 1) ''naive'' = Some (Inr 0)"
  by (simp add: init_complete run_simulation_complete init_tick0)

text \<open>
  C4, amended: for \<open>num_servers < 2\<close> construction succeeds and \<open>run_simulation('naive')\<close>
  returns 0 without raising, because the completion test precedes the first call of the
  strategy. Only a direct call of \<open>naive_transfer\<close> on such a simulation raises:
  \<open>ZeroDivisionError\<close> for one server, \<open>IndexError\<close> for none.
\<close>

theorem naive_degenerate_population:
  "n < 2 \<Longrightarrow>
     run_simulation (init n) ''naive'' = Some (Inr 0)
     \<and> naive_transfer (init n) = Inl (if n = 1 then ZeroDivisionError else IndexError)"
  by (simp add: init_complete run_simulation_complete init_tick0 naive_transfer_init_small)

theorem naive_degenerate_population_witness:
  "(0::int) < 2 \<and> run_simulation (init 0) ''naive'' = Some (Inr 0)
     \<and> naive_transfer (init 0) = Inl IndexError"
  using naive_degenerate_population [of 0] by simp

section \<open>The algorithm name\<close>

lemma run_simulation_transfer:
  assumes same: "\<And>s. tick a s = tick b s"
  shows "run_simulation s alg = Some r \<Longrightarrow> alg = a \<longrightarrow> run_simulation s b = Some r"
proof (rule run_simulation.raw_induct
    [where P = "\<lambda>s alg r. alg = a \<longrightarrow> run_simulation s b = Some r"])
  fix run s alg r
  assume IH: "\<And>s' alg' r'. run s' alg' = Some r' \<Longrightarrow> alg' = a \<longrightarrow> run_simulation s' b = Some r'"
    and body: "(if is_complete s then Some (Inr (current_tick s))
                else case tick alg s of Inl e \<Rightarrow> Some (Inl e) | Inr s' \<Rightarrow> run s' alg) = Some r"
  show "alg = a \<longrightarrow> run_simulation s b = Some r"
  proof
    assume alg: "alg = a"
    show "run_simulation s b = Some r"
    proof (cases "is_complete s")
      case True
      with body show ?thesis by (simp add: run_simulation_complete)
    next
      case False
      show ?thesis
      proof (cases "tick a s")
        case (Inl e)
        with same [of s] have "tick b s = Inl e" by simp
        moreover from Inl body False alg have "r = Inl e" by simp
        ultimately show ?thesis using False
          by (subst run_simulation.simps) simp
      next
        case (Inr s')
        with body False alg have "run s' a = Some r" by simp
        with IH have "run_simulation s' b = Some r" by blast
        moreover from Inr same [of s] have "tick b s = Inr s'" by simp
        ultimately show ?thesis using False
          by (subst run_simulation.simps) simp
      qed
    qed
  qed
qed

lemma run_simulation_same_tick:
  assumes same: "\<And>s. tick a s = tick b s"
  shows "run_simulation s a = run_simulation s b"
proof (cases "run_simulation s a")
  case (Some r)
  with run_simulation_transfer [OF same, of s a r] show ?thesis by simp
next
  case None
  show ?thesis
  proof (cases "run_simulation s b")
    case (Some r)
    have "\<And>s. tick b s = tick a s" by (simp add: same)
    from run_simulation_transfer [OF this, of s b r] Some have "run_simulation s a = Some r" by simp
    with None show ?thesis by simp
  next
    case None2: None
    with None show ?thesis by simp
  qed
qed

section \<open>Facts about the states that occur in runs\<close>

lemma length_chunks_upto [simp]: "length (chunks_upto h) = NUM_CHUNKS"
  by (simp add: chunks_upto_def)

lemma nth_chunks_upto [simp]:
  "j < NUM_CHUNKS \<Longrightarrow> chunks_upto h ! j = \<lparr>c_id = int j, present = (j < h)\<rparr>"
  by (simp add: chunks_upto_def)

lemma server_with_sel [simp]:
  "s_id (server_with i h t) = int i"
  "chunks (server_with i h t) = chunks_upto h"
  "is_transmitting (server_with i h t) = (t \<noteq> None)"
  "transmitting_to (server_with i h t) = t"
  by (simp_all add: server_with_def)

lemma length_servers_with [simp]: "length (servers_with n h tt) = n"
  by (simp add: servers_with_def)

lemma nth_servers_with [simp]:
  "i < n \<Longrightarrow> servers_with n h tt ! i = server_with i (h i) (tt i)"
  by (simp add: servers_with_def)

lemma servers_with_cong:
  "(\<And>i. i < n \<Longrightarrow> h i = h' i \<and> tt i = tt' i) \<Longrightarrow> servers_with n h tt = servers_with n h' tt'"
  by (simp add: servers_with_def)

lemma filter_less_upt: "filter (\<lambda>j. j < h) [0..<n] = [0..<min h n]"
proof (induction n)
  case 0
  show ?case by simp
next
  case (Suc n)
  show ?case
  proof (cases "n < h")
    case True
    then have "min h (Suc n) = Suc n" "min h n = n" by simp_all
    with Suc True show ?thesis by simp
  next
    case False
    then have "min h (Suc n) = min h n" by simp
    with Suc False show ?thesis by simp
  qed
qed

lemma target_chunk_count_with [simp]:
  "target_chunk_count (server_with i h t) = min h NUM_CHUNKS"
  by (simp add: target_chunk_count_def chunks_upto_def filter_map o_def filter_less_upt)

lemma has_chunks_with [simp]: "has_chunks (server_with i h t) \<longleftrightarrow> 0 < h"
  by (auto simp: has_chunks_def chunks_upto_def list_ex_iff NUM_CHUNKS_def)

lemma zip_chunks_upto:
  "zip (chunks_upto a) (chunks_upto b) =
     map (\<lambda>j. (\<lparr>c_id = int j, present = (j < a)\<rparr>, \<lparr>c_id = int j, present = (j < b)\<rparr>)) [0..<NUM_CHUNKS]"
  by (simp add: chunks_upto_def zip_map_map zip_same_conv_map)

lemma has_needed_chunks_with [simp]:
  "has_needed_chunks (server_with i a t) (server_with i' b t') \<longleftrightarrow> b < a \<and> b < NUM_CHUNKS"
  by (auto simp: has_needed_chunks_def zip_chunks_upto list_ex_iff)

lemma chunk_to_send_with:
  assumes "b < a" "b < NUM_CHUNKS"
  shows "chunk_to_send (server_with i a t) (server_with i' b t') = Some b"
proof -
  let ?P = "\<lambda>(i::nat, source_chunk, target_chunk). present source_chunk \<and> \<not> present target_chunk"
  let ?xs = "enumerate 0 (zip (chunks_upto a) (chunks_upto b))"
  have len: "length ?xs = NUM_CHUNKS" by simp
  have nth: "?xs ! j = (j, \<lparr>c_id = int j, present = (j < a)\<rparr>, \<lparr>c_id = int j, present = (j < b)\<rparr>)"
    if "j < NUM_CHUNKS" for j
    using that by (simp add: nth_enumerate_eq)
  have "find ?P ?xs = Some (?xs ! b)"
    unfolding find_Some_iff
  proof (intro exI [of _ b] conjI allI impI)
    show "b < length ?xs" using assms by simp
    show "?P (?xs ! b)" using assms by (simp add: nth)
    show "?xs ! b = ?xs ! b" ..
    fix j assume "j < b"
    with assms show "\<not> ?P (?xs ! j)" by (simp add: nth)
  qed
  then show ?thesis using assms by (simp add: chunk_to_send_def nth)
qed

lemma py_index_nat [simp]: "i < len \<Longrightarrow> py_index len (int i) = Inr i"
  by (simp add: py_index_def)

lemma chunks_upto_Suc:
  "h < NUM_CHUNKS \<Longrightarrow>
     (chunks_upto h)[h := \<lparr>c_id = int h, present = True\<rparr>] = chunks_upto (Suc h)"
  by (rule nth_equalityI) (auto simp: nth_list_update)

lemma set_present_with:
  assumes "t < n" "h t < NUM_CHUNKS"
  shows "set_present (servers_with n h tt) (int t) (int (h t)) = Inr (servers_with n (h(t := Suc (h t))) tt)"
proof -
  have "(servers_with n h tt)[t := (servers_with n h tt ! t)\<lparr>chunks :=
          (chunks (servers_with n h tt ! t))[h t := (chunks (servers_with n h tt ! t) ! h t)\<lparr>present := True\<rparr>]\<rparr>]
        = servers_with n (h(t := Suc (h t))) tt"
    using assms
    by (intro nth_equalityI) (auto simp: nth_list_update chunks_upto_Suc server_with_def)
  with assms show ?thesis
    by (simp add: set_present_def)
qed

lemma set_transmitting_with:
  assumes "p < n"
  shows "set_transmitting (servers_with n h tt) (int p) x = Inr (servers_with n h (tt(p := Some x)))"
proof -
  have "(servers_with n h tt)[p := (servers_with n h tt ! p)\<lparr>is_transmitting := True, transmitting_to := Some x\<rparr>]
        = servers_with n h (tt(p := Some x))"
    using assms
    by (intro nth_equalityI) (auto simp: nth_list_update server_with_def)
  with assms show ?thesis
    by (simp add: set_transmitting_def)
qed

lemma reset_servers_with: "map reset_server (servers_with n h tt) = servers_with n h (\<lambda>_. None)"
  by (simp add: servers_with_def reset_server_def server_with_def)

lemma all_present_chunks_upto: "list_all present (chunks_upto h) \<longleftrightarrow> NUM_CHUNKS \<le> h"
proof
  assume all: "list_all present (chunks_upto h)"
  show "NUM_CHUNKS \<le> h"
  proof (rule ccontr)
    assume "\<not> NUM_CHUNKS \<le> h"
    then have "h < NUM_CHUNKS" by simp
    then have "chunks_upto h ! h \<in> set (chunks_upto h)" by (intro nth_mem) simp
    with all have "present (chunks_upto h ! h)" by (simp add: list_all_iff)
    with \<open>h < NUM_CHUNKS\<close> show False by simp
  qed
next
  assume "NUM_CHUNKS \<le> h"
  then show "list_all present (chunks_upto h)"
    by (auto simp: list_all_iff chunks_upto_def)
qed

lemma is_complete_with:
  "is_complete \<lparr>num_servers = N, current_tick = t, servers = servers_with n h tt\<rparr>
     \<longleftrightarrow> (\<forall>i<n. NUM_CHUNKS \<le> h i)"
  by (auto simp: is_complete_def servers_with_def list_all_iff all_present_chunks_upto [unfolded list_all_iff])

lemma seeding_full: "seeding_state n n t = filling_state n 1 0 t"
  unfolding seeding_state_def filling_state_def
  by (simp, intro servers_with_cong) (auto simp: seeding_def filling_def)

lemma init_servers: "servers (init (int n)) = servers_with n (filling 0 0) (\<lambda>_. None)"
  by (simp add: init_def servers_with_def server_with_def chunks_upto_def filling_def)

lemma init_seeding: "init (int n) = seeding_state n 1 0"
proof -
  have "servers_with n (filling 0 0) (\<lambda>_. None) = servers_with n (seeding 1) (\<lambda>_. None)"
    by (intro servers_with_cong) (auto simp: seeding_def filling_def)
  with init_servers [of n] show ?thesis
    by (simp add: init_def seeding_state_def)
qed

lemma init_filling: "init (int n) = filling_state n 0 0 0"
  using init_servers [of n] by (simp add: init_def filling_state_def)

lemma is_complete_seeding: "m < n \<Longrightarrow> 1 \<le> m \<Longrightarrow> \<not> is_complete (seeding_state n m t)"
  by (auto simp: seeding_state_def is_complete_with seeding_def NUM_CHUNKS_def intro!: exI [of _ m])

lemma is_complete_filling:
  assumes "2 \<le> n" "r < n - 1"
  shows "is_complete (filling_state n c r t) \<longleftrightarrow> NUM_CHUNKS \<le> c"
proof
  assume "is_complete (filling_state n c r t)"
  then have "\<forall>i<n. NUM_CHUNKS \<le> filling c r i"
    by (simp add: filling_state_def is_complete_with)
  moreover have "n - 1 < n" using assms by simp
  ultimately have "NUM_CHUNKS \<le> filling c r (n - 1)" by blast
  with assms show "NUM_CHUNKS \<le> c" by (simp add: filling_def split: if_splits)
next
  assume "NUM_CHUNKS \<le> c"
  then show "is_complete (filling_state n c r t)"
    by (simp add: filling_state_def is_complete_with filling_def)
qed

lemma current_tick_filling [simp]: "current_tick (filling_state n c r t) = t"
  by (simp add: filling_state_def)

lemma run_simulation_step:
  "\<not> is_complete s \<Longrightarrow> tick algorithm s = Inr s' \<Longrightarrow>
     run_simulation s algorithm = run_simulation s' algorithm"
  by (subst run_simulation.simps) simp

section \<open>The choice of a target\<close>

lemma consider_target_with:
  assumes "sp < n" "tp < n"
  shows "consider_target (servers_with n h tt) sp tp (b, l) =
           (if eligible h tt sp tp \<and> h tp < l then (Some tp, h tp) else (b, l))"
  using assms by (auto simp: consider_target_def eligible_def)

text \<open>
  The loop over the potential targets keeps the first target among those of least chunk
  count, or nothing when no target is eligible.
\<close>

lemma fold_consider_target:
  assumes "sp < n" "k \<le> n"
  shows "case fold (consider_target (servers_with n h tt) sp) [0..<k] (None, NUM_CHUNKS) of
           (b, l) \<Rightarrow>
             (case b of
                None \<Rightarrow> l = NUM_CHUNKS \<and> (\<forall>u<k. \<not> eligible h tt sp u)
              | Some t \<Rightarrow> t < k \<and> eligible h tt sp t \<and> l = h t
                  \<and> (\<forall>u<k. eligible h tt sp u \<longrightarrow> h t \<le> h u \<and> (h u = h t \<longrightarrow> t \<le> u)))"
  using assms(2)
proof (induction k)
  case 0
  show ?case by simp
next
  case (Suc k)
  then have k: "k < n" and IH: "case fold (consider_target (servers_with n h tt) sp) [0..<k] (None, NUM_CHUNKS) of
           (b, l) \<Rightarrow>
             (case b of
                None \<Rightarrow> l = NUM_CHUNKS \<and> (\<forall>u<k. \<not> eligible h tt sp u)
              | Some t \<Rightarrow> t < k \<and> eligible h tt sp t \<and> l = h t
                  \<and> (\<forall>u<k. eligible h tt sp u \<longrightarrow> h t \<le> h u \<and> (h u = h t \<longrightarrow> t \<le> u)))"
    by simp_all
  obtain b l where bl: "fold (consider_target (servers_with n h tt) sp) [0..<k] (None, NUM_CHUNKS) = (b, l)"
    by (cases "fold (consider_target (servers_with n h tt) sp) [0..<k] (None, NUM_CHUNKS)")
  have step: "fold (consider_target (servers_with n h tt) sp) [0..<Suc k] (None, NUM_CHUNKS) =
          (if eligible h tt sp k \<and> h k < l then (Some k, h k) else (b, l))"
    using bl k assms(1) by (simp add: consider_target_with)
  show ?case
  proof (cases b)
    case None
    with IH bl have l: "l = NUM_CHUNKS" and none: "\<forall>u<k. \<not> eligible h tt sp u" by simp_all
    show ?thesis
    proof (cases "eligible h tt sp k")
      case True
      then have "h k < l" using l by (simp add: eligible_def)
      with True step none show ?thesis by (auto simp: less_Suc_eq)
    next
      case False
      with step none None l show ?thesis by (auto simp: less_Suc_eq)
    qed
  next
    case (Some t)
    with IH bl have t: "t < k" "eligible h tt sp t" "l = h t"
      and least: "\<forall>u<k. eligible h tt sp u \<longrightarrow> h t \<le> h u \<and> (h u = h t \<longrightarrow> t \<le> u)"
      by simp_all
    show ?thesis
    proof (cases "eligible h tt sp k \<and> h k < l")
      case True
      with step t least show ?thesis
        by (auto simp: less_Suc_eq)
    next
      case False
      with step Some t least show ?thesis
        by (auto simp: less_Suc_eq)
    qed
  qed
qed

lemma find_best_target_first_least:
  assumes "sp < n" "t < n" "eligible h tt sp t"
    and "\<And>u. u < n \<Longrightarrow> eligible h tt sp u \<Longrightarrow> h t \<le> h u \<and> (h u = h t \<longrightarrow> t \<le> u)"
  shows "find_best_target (servers_with n h tt) sp = Some t"
proof -
  obtain b l where bl: "fold (consider_target (servers_with n h tt) sp) [0..<n] (None, NUM_CHUNKS) = (b, l)"
    by (cases "fold (consider_target (servers_with n h tt) sp) [0..<n] (None, NUM_CHUNKS)")
  from fold_consider_target [OF assms(1) le_refl, of h tt] bl
  have inv: "case b of
                None \<Rightarrow> l = NUM_CHUNKS \<and> (\<forall>u<n. \<not> eligible h tt sp u)
              | Some t \<Rightarrow> t < n \<and> eligible h tt sp t \<and> l = h t
                  \<and> (\<forall>u<n. eligible h tt sp u \<longrightarrow> h t \<le> h u \<and> (h u = h t \<longrightarrow> t \<le> u))"
    by simp
  show ?thesis
  proof (cases b)
    case None
    with inv assms(2,3) show ?thesis by auto
  next
    case (Some t')
    with inv have t': "t' < n" "eligible h tt sp t'"
      and least: "\<forall>u<n. eligible h tt sp u \<longrightarrow> h t' \<le> h u \<and> (h u = h t' \<longrightarrow> t' \<le> u)"
      by simp_all
    from least assms(2,3) have 1: "h t' \<le> h t" "h t = h t' \<longrightarrow> t' \<le> t" by auto
    from assms(4) [OF t'] have 2: "h t \<le> h t'" "h t' = h t \<longrightarrow> t \<le> t'" by auto
    from 1 2 have "t' = t" by auto
    with Some bl show ?thesis by (simp add: find_best_target_def)
  qed
qed

lemma find_best_target_none:
  assumes "sp < n" "\<And>u. u < n \<Longrightarrow> \<not> eligible h tt sp u"
  shows "find_best_target (servers_with n h tt) sp = None"
proof -
  obtain b l where bl: "fold (consider_target (servers_with n h tt) sp) [0..<n] (None, NUM_CHUNKS) = (b, l)"
    by (cases "fold (consider_target (servers_with n h tt) sp) [0..<n] (None, NUM_CHUNKS)")
  from fold_consider_target [OF assms(1) le_refl, of h tt] bl assms(2)
  have "b = None" by (cases b) auto
  with bl show ?thesis by (simp add: find_best_target_def)
qed

lemma send_from_target:
  assumes "sp < n" "t < n" "eligible h tt sp t"
    and "find_best_target (servers_with n h tt) sp = Some t"
  shows "send_from sp (servers_with n h tt, sent) =
           Inr (servers_with n (h(t := Suc (h t))) (tt(sp := Some (int t))),
                sent @ [(int sp, int t, int (h t))])"
proof -
  from assms(3) have lt: "h t < h sp" "h t < NUM_CHUNKS" by (simp_all add: eligible_def)
  have c: "chunk_to_send (servers_with n h tt ! sp) (servers_with n h tt ! t) = Some (h t)"
    using assms(1,2) lt by (simp add: chunk_to_send_with)
  have p: "set_present (servers_with n h tt) (int t) (int (h t)) = Inr (servers_with n (h(t := Suc (h t))) tt)"
    using assms(2) lt(2) by (rule set_present_with)
  have q: "set_transmitting (servers_with n (h(t := Suc (h t))) tt) (int sp) (int t)
             = Inr (servers_with n (h(t := Suc (h t))) (tt(sp := Some (int t))))"
    using assms(1) by (rule set_transmitting_with)
  show ?thesis
    using assms(1,2,4) c p q by (simp add: send_from_def)
qed

lemma send_from_no_target:
  assumes "find_best_target (servers_with n h tt) sp = None"
  shows "send_from sp (servers_with n h tt, sent) = Inr (servers_with n h tt, sent)"
  using assms by (simp add: send_from_def)

lemma smart_pass_snoc:
  "smart_pass (sps @ [sp]) st =
     (case smart_pass sps st of Inl e \<Rightarrow> Inl e | Inr st' \<Rightarrow> send_from sp st')"
  by (induction sps arbitrary: st) (auto split: sum.splits)

section \<open>One pass of the smart strategy\<close>

lemma sending_to_0: "sending_to 0 off = (\<lambda>_. None)"
  by (simp add: sending_to_def fun_eq_iff)

lemma transfers_of_0 [simp]: "transfers_of 0 off c = []"
  by (simp add: transfers_of_def)

lemma transfers_of_Suc: "transfers_of (Suc d) off c = transfers_of d off c @ [(int d, int (d + off), int c)]"
  by (simp add: transfers_of_def)

text \<open>
  One pass while some server is still empty: after the first \<open>k\<close> senders, sender \<open>i\<close>
  has given chunk 0 to server \<open>m + i\<close>, as long as there is such a server.
\<close>

lemma seeding_pass:
  assumes m: "1 \<le> m" "m < n" and k: "k \<le> m"
  shows "smart_pass [0..<k] (servers_with n (seeding m) (\<lambda>_. None), []) =
           Inr (servers_with n (seeding (m + min k (n - m))) (sending_to (min k (n - m)) m),
                transfers_of (min k (n - m)) m 0)"
  using k
proof (induction k)
  case 0
  show ?case by (simp add: sending_to_0)
next
  case (Suc k)
  then have km: "k < m" and
    IH: "smart_pass [0..<k] (servers_with n (seeding m) (\<lambda>_. None), []) =
           Inr (servers_with n (seeding (m + min k (n - m))) (sending_to (min k (n - m)) m),
                transfers_of (min k (n - m)) m 0)"
    by simp_all
  from km m have kn: "k < n" by simp
  have unfold: "smart_pass [0..<Suc k] (servers_with n (seeding m) (\<lambda>_. None), []) =
      send_from k (servers_with n (seeding (m + min k (n - m))) (sending_to (min k (n - m)) m),
                   transfers_of (min k (n - m)) m 0)"
    by (simp add: smart_pass_snoc IH)
  show ?case
  proof (cases "k < n - m")
    case True
    then have d: "min k (n - m) = k" "min (Suc k) (n - m) = Suc k" by simp_all
    let ?h = "seeding (m + k)" and ?tt = "sending_to k m"
    have t: "m + k < n" using True by simp
    have el: "eligible ?h ?tt k (m + k)"
      using m by (simp add: eligible_def seeding_def sending_to_def NUM_CHUNKS_def)
    have least: "?h (m + k) \<le> ?h u \<and> (?h u = ?h (m + k) \<longrightarrow> m + k \<le> u)" for u
      using m by (simp add: seeding_def NUM_CHUNKS_def)
    have best: "find_best_target (servers_with n ?h ?tt) k = Some (m + k)"
      using kn t el least by (rule find_best_target_first_least)
    have "send_from k (servers_with n ?h ?tt, transfers_of k m 0) =
            Inr (servers_with n (?h(m + k := Suc (?h (m + k)))) (?tt(k := Some (int (m + k)))),
                 transfers_of k m 0 @ [(int k, int (m + k), int (?h (m + k)))])"
      using kn t el best by (rule send_from_target)
    moreover have "servers_with n (?h(m + k := Suc (?h (m + k)))) (?tt(k := Some (int (m + k))))
                     = servers_with n (seeding (m + Suc k)) (sending_to (Suc k) m)"
      using m by (intro servers_with_cong) (auto simp: seeding_def sending_to_def add.commute)
    moreover have "transfers_of k m 0 @ [(int k, int (m + k), int (?h (m + k)))] = transfers_of (Suc k) m 0"
      using m by (simp add: transfers_of_Suc seeding_def add.commute)
    ultimately show ?thesis
      using unfold d by simp
  next
    case False
    then have d: "min k (n - m) = n - m" "min (Suc k) (n - m) = n - m" by simp_all
    from m have mn: "m + (n - m) = n" by simp
    from False m have k0: "0 < k" by simp
    have "\<not> eligible (seeding n) (sending_to (n - m) m) k u" if "u < n" for u
      using that k0 km m by (simp add: eligible_def seeding_def)
    with kn have "find_best_target (servers_with n (seeding n) (sending_to (n - m) m)) k = None"
      by (rule find_best_target_none)
    then have "send_from k (servers_with n (seeding n) (sending_to (n - m) m), transfers_of (n - m) m 0)
                 = Inr (servers_with n (seeding n) (sending_to (n - m) m), transfers_of (n - m) m 0)"
      by (rule send_from_no_target)
    with unfold d mn show ?thesis by simp
  qed
qed

text \<open>
  One pass once every server holds \<open>c \<ge> 1\<close> chunks: server 0 gives chunk \<open>c\<close> to server
  1, which passes it on to server 2, and so on down the line.
\<close>

lemma filling_pass:
  assumes n: "2 \<le> n" and c: "1 \<le> c" "c < NUM_CHUNKS" and k: "k \<le> n"
  shows "smart_pass [0..<k] (servers_with n (filling c 0) (\<lambda>_. None), []) =
           Inr (servers_with n (filling c (min k (n - 1))) (sending_to (min k (n - 1)) 1),
                transfers_of (min k (n - 1)) 1 c)"
  using k
proof (induction k)
  case 0
  show ?case by (simp add: sending_to_0)
next
  case (Suc k)
  then have kn: "k < n" and
    IH: "smart_pass [0..<k] (servers_with n (filling c 0) (\<lambda>_. None), []) =
           Inr (servers_with n (filling c (min k (n - 1))) (sending_to (min k (n - 1)) 1),
                transfers_of (min k (n - 1)) 1 c)"
    by simp_all
  have unfold: "smart_pass [0..<Suc k] (servers_with n (filling c 0) (\<lambda>_. None), []) =
      send_from k (servers_with n (filling c (min k (n - 1))) (sending_to (min k (n - 1)) 1),
                   transfers_of (min k (n - 1)) 1 c)"
    by (simp add: smart_pass_snoc IH)
  show ?case
  proof (cases "k < n - 1")
    case True
    then have d: "min k (n - 1) = k" "min (Suc k) (n - 1) = Suc k" by simp_all
    let ?h = "filling c k" and ?tt = "sending_to k 1"
    have t: "Suc k < n" using True by simp
    have el: "eligible ?h ?tt k (Suc k)"
      using c by (simp add: eligible_def filling_def sending_to_def)
    have least: "?h (Suc k) \<le> ?h u \<and> (?h u = ?h (Suc k) \<longrightarrow> Suc k \<le> u)" for u
      using c by (simp add: filling_def)
    have best: "find_best_target (servers_with n ?h ?tt) k = Some (Suc k)"
      using kn t el least by (rule find_best_target_first_least)
    have "send_from k (servers_with n ?h ?tt, transfers_of k 1 c) =
            Inr (servers_with n (?h(Suc k := Suc (?h (Suc k)))) (?tt(k := Some (int (Suc k)))),
                 transfers_of k 1 c @ [(int k, int (Suc k), int (?h (Suc k)))])"
      using kn t el best by (rule send_from_target)
    moreover have "servers_with n (?h(Suc k := Suc (?h (Suc k)))) (?tt(k := Some (int (Suc k))))
                     = servers_with n (filling c (Suc k)) (sending_to (Suc k) 1)"
      by (intro servers_with_cong) (auto simp: filling_def sending_to_def)
    moreover have "transfers_of k 1 c @ [(int k, int (Suc k), int (?h (Suc k)))] = transfers_of (Suc k) 1 c"
      by (simp add: transfers_of_Suc filling_def)
    ultimately show ?thesis
      using unfold d by simp
  next
    case False
    with kn have keq: "k = n - 1" by simp
    then have d: "min k (n - 1) = n - 1" "min (Suc k) (n - 1) = n - 1" by simp_all
    from keq n have k0: "0 < k" by simp
    have "\<not> eligible (filling c (n - 1)) (sending_to (n - 1) 1) k u" if "u < n" for u
    proof -
      from that have "u \<le> n - 1" by simp
      moreover from k0 keq have "filling c (n - 1) k = Suc c" by (simp add: filling_def)
      ultimately show ?thesis by (simp add: eligible_def filling_def)
    qed
    with kn have "find_best_target (servers_with n (filling c (n - 1)) (sending_to (n - 1) 1)) k = None"
      by (rule find_best_target_none)
    then have "send_from k (servers_with n (filling c (n - 1)) (sending_to (n - 1) 1), transfers_of (n - 1) 1 c)
                 = Inr (servers_with n (filling c (n - 1)) (sending_to (n - 1) 1), transfers_of (n - 1) 1 c)"
      by (rule send_from_no_target)
    with unfold d show ?thesis by simp
  qed
qed

lemma available_servers_idle:
  "available_servers (servers_with n h (\<lambda>_. None)) = filter (\<lambda>p. 0 < h p) [0..<n]"
  by (auto simp: available_servers_def intro: filter_cong)

lemma available_seeding:
  assumes "1 \<le> m" "m \<le> n"
  shows "available_servers (servers_with n (seeding m) (\<lambda>_. None)) = [0..<m]"
proof -
  have "filter (\<lambda>p. 0 < seeding m p) [0..<n] = filter (\<lambda>p. p < m) [0..<n]"
    using assms by (intro filter_cong) (auto simp: seeding_def NUM_CHUNKS_def)
  with assms show ?thesis
    by (simp add: available_servers_idle filter_less_upt min_absorb1)
qed

lemma available_filling:
  assumes "1 \<le> c"
  shows "available_servers (servers_with n (filling c r) (\<lambda>_. None)) = [0..<n]"
proof -
  have "filter (\<lambda>p. 0 < filling c r p) [0..<n] = filter (\<lambda>p. True) [0..<n]"
    using assms by (intro filter_cong) (auto simp: filling_def NUM_CHUNKS_def)
  then show ?thesis
    by (simp add: available_servers_idle)
qed

lemma smart_transfer_seeding:
  assumes "1 \<le> m" "m < n"
  shows "smart_transfer (seeding_state n m t) =
           Inr (\<lparr>num_servers = int n, current_tick = t,
                 servers = servers_with n (seeding (min (2 * m) n)) (sending_to (min m (n - m)) m)\<rparr>,
                transfers_of (min m (n - m)) m 0)"
proof -
  have "m + min m (n - m) = min (2 * m) n" using assms by simp
  with seeding_pass [OF assms le_refl] assms show ?thesis
    by (simp add: smart_transfer_def seeding_state_def available_seeding)
qed

lemma tick_seeding:
  assumes "1 \<le> m" "m < n" "algorithm \<noteq> ''naive''"
  shows "tick algorithm (seeding_state n m t) = Inr (seeding_state n (min (2 * m) n) (t + 1))"
  using smart_transfer_seeding [OF assms(1,2), of t] assms(3)
  by (simp add: tick_def strategy_def reset_servers_with seeding_state_def)

lemma smart_transfer_filling:
  assumes "2 \<le> n" "1 \<le> c" "c < NUM_CHUNKS"
  shows "smart_transfer (filling_state n c 0 t) =
           Inr (\<lparr>num_servers = int n, current_tick = t,
                 servers = servers_with n (filling c (n - 1)) (sending_to (n - 1) 1)\<rparr>,
                transfers_of (n - 1) 1 c)"
  using filling_pass [OF assms le_refl] assms
  by (simp add: smart_transfer_def filling_state_def available_filling)

lemma filling_wrap:
  "servers_with n (filling c (n - Suc 0)) tt = servers_with n (filling (Suc c) 0) tt"
  by (intro servers_with_cong) (auto simp: filling_def)

lemma tick_filling:
  assumes "2 \<le> n" "1 \<le> c" "c < NUM_CHUNKS" "algorithm \<noteq> ''naive''"
  shows "tick algorithm (filling_state n c 0 t) = Inr (filling_state n (Suc c) 0 (t + 1))"
  using smart_transfer_filling [OF assms(1,2,3), of t] assms(4)
  by (simp add: tick_def strategy_def reset_servers_with filling_state_def filling_wrap)

section \<open>Runs of the smart strategy\<close>

lemma run_filling:
  assumes "2 \<le> n" "algorithm \<noteq> ''naive''"
  shows "1 \<le> c \<Longrightarrow> c \<le> NUM_CHUNKS \<Longrightarrow>
     run_simulation (filling_state n c 0 t) algorithm = Some (Inr (t + int (NUM_CHUNKS - c)))"
proof (induction "NUM_CHUNKS - c" arbitrary: c t)
  case 0
  then have "is_complete (filling_state n c 0 t)"
    using assms by (simp add: is_complete_filling)
  with 0 show ?case
    by (simp add: run_simulation_complete filling_state_def)
next
  case (Suc d)
  then have c: "c < NUM_CHUNKS" and d: "d = NUM_CHUNKS - Suc c" by simp_all
  then have "\<not> is_complete (filling_state n c 0 t)"
    using assms by (simp add: is_complete_filling)
  moreover have "tick algorithm (filling_state n c 0 t) = Inr (filling_state n (Suc c) 0 (t + 1))"
    using assms Suc.prems c by (simp add: tick_filling)
  ultimately have "run_simulation (filling_state n c 0 t) algorithm
                     = run_simulation (filling_state n (Suc c) 0 (t + 1)) algorithm"
    by (rule run_simulation_step)
  also have "\<dots> = Some (Inr (t + 1 + int (NUM_CHUNKS - Suc c)))"
    using d c by (intro Suc.hyps) simp_all
  also have "t + 1 + int (NUM_CHUNKS - Suc c) = t + int (NUM_CHUNKS - c)"
    using c by simp
  finally show ?case .
qed

lemma doublings_min: "1 \<le> m \<Longrightarrow> m < n \<Longrightarrow> Suc (doublings (min (2 * m) n) n) = doublings m n"
  by (subst (2) doublings.simps, subst doublings.simps) (auto simp: min_def doublings.simps)

lemma run_seeding:
  assumes "algorithm \<noteq> ''naive''"
  shows "1 \<le> m \<Longrightarrow> m \<le> n \<Longrightarrow> 2 \<le> n \<Longrightarrow>
     run_simulation (seeding_state n m t) algorithm
       = Some (Inr (t + int (doublings m n) + int (NUM_CHUNKS - 1)))"
proof (induction "n - m" arbitrary: m t rule: less_induct)
  case less
  show ?case
  proof (cases "m = n")
    case True
    have "doublings n n = 0" by (simp add: doublings.simps)
    moreover have "run_simulation (filling_state n 1 0 t) algorithm
                     = Some (Inr (t + int (NUM_CHUNKS - 1)))"
      using less.prems(3) assms by (rule run_filling) (simp_all add: NUM_CHUNKS_def)
    ultimately show ?thesis using True
      by (simp add: seeding_full)
  next
    case False
    with less.prems have mn: "m < n" by simp
    let ?m' = "min (2 * m) n"
    have "run_simulation (seeding_state n m t) algorithm
            = run_simulation (seeding_state n ?m' (t + 1)) algorithm"
      using less.prems mn assms
      by (intro run_simulation_step) (simp_all add: is_complete_seeding tick_seeding)
    also have "\<dots> = Some (Inr (t + 1 + int (doublings ?m' n) + int (NUM_CHUNKS - 1)))"
      using less.prems mn by (intro less.hyps) auto
    also have "t + 1 + int (doublings ?m' n) = t + int (doublings m n)"
      using doublings_min [of m n] less.prems mn by simp
    finally show ?thesis .
  qed
qed

text \<open>The exact tick count of the smart strategy.\<close>

lemma smart_run_exact:
  assumes "2 \<le> n" "algorithm \<noteq> ''naive''"
  shows "run_simulation (init (int n)) algorithm
           = Some (Inr (int (doublings 1 n) + int (NUM_CHUNKS - 1)))"
  using run_seeding [OF assms(2), of 1 n 0] assms(1) by (simp add: init_seeding)

lemma doublings_upper: "1 \<le> m \<Longrightarrow> doublings m n \<le> n - m"
proof (induction m n rule: doublings.induct)
  case (1 m n)
  show ?case
  proof (cases "n \<le> m")
    case True
    then show ?thesis by (simp add: doublings.simps)
  next
    case False
    with 1 have "doublings (2 * m) n \<le> n - 2 * m" by simp
    moreover have "doublings m n = Suc (doublings (2 * m) n)"
      using False 1(2) by (subst doublings.simps) simp
    moreover have "doublings (2 * m) n = 0" if "n \<le> 2 * m"
      using that by (subst doublings.simps) simp
    ultimately show ?thesis using False 1(2) by (cases "n \<le> 2 * m") auto
  qed
qed

lemma doublings_lower: "1 \<le> m \<Longrightarrow> n \<le> m * 2 ^ doublings m n"
proof (induction m n rule: doublings.induct)
  case (1 m n)
  show ?case
  proof (cases "n \<le> m")
    case True
    then show ?thesis by (simp add: doublings.simps)
  next
    case False
    with 1 have "n \<le> 2 * m * 2 ^ doublings (2 * m) n" by simp
    moreover have "doublings m n = Suc (doublings (2 * m) n)"
      using False 1(2) by (subst doublings.simps) simp
    ultimately show ?thesis by (simp add: mult.assoc)
  qed
qed

lemma smart_run_bounds:
  assumes "2 \<le> n"
  shows "int (doublings 1 n) + int (NUM_CHUNKS - 1) \<le> (int n - 1) * int NUM_CHUNKS"
    and "\<lceil>log 2 (real n)\<rceil> \<le> int (doublings 1 n) + int (NUM_CHUNKS - 1)"
proof -
  have "doublings 1 n \<le> n - 1" by (rule doublings_upper) simp
  then have "doublings 1 n + 15 \<le> (n - 1) * 16" using assms by simp
  then have "int (doublings 1 n + 15) \<le> int ((n - 1) * 16)" by (simp only: of_nat_le_iff)
  then show "int (doublings 1 n) + int (NUM_CHUNKS - 1) \<le> (int n - 1) * int NUM_CHUNKS"
    using assms by (simp add: NUM_CHUNKS_def of_nat_diff)
  have "n \<le> 2 ^ doublings 1 n" using doublings_lower [of 1 n] by simp
  then have "log 2 (real n) \<le> real (doublings 1 n)"
    using assms by (intro log2_of_power_le) simp_all
  then have "\<lceil>log 2 (real n)\<rceil> \<le> int (doublings 1 n)"
    by (simp add: ceiling_le_iff)
  then show "\<lceil>log 2 (real n)\<rceil> \<le> int (doublings 1 n) + int (NUM_CHUNKS - 1)" by simp
qed

text \<open>
  C1: for every \<open>num_servers = n \<ge> 2\<close>, \<open>run_simulation('smart')\<close> terminates without
  raising and returns a tick count that is at most the naive bound \<open>(n - 1) * NUM_CHUNKS\<close>
  and at least \<open>ceil(log2(n))\<close>. (The count is \<open>doublings 1 n + NUM_CHUNKS - 1\<close>, see
  \<open>smart_run_exact\<close>.)
\<close>

theorem smart_run_terminates_within_bounds:
  "2 \<le> n \<Longrightarrow>
     \<exists>r. run_simulation (init n) ''smart'' = Some (Inr r)
         \<and> r \<le> (n - 1) * int NUM_CHUNKS
         \<and> \<lceil>log 2 (real_of_int n)\<rceil> \<le> r"
proof -
  assume "2 \<le> n"
  then have n: "2 \<le> nat n" "int (nat n) = n" by simp_all
  have "run_simulation (init (int (nat n))) ''smart''
          = Some (Inr (int (doublings 1 (nat n)) + int (NUM_CHUNKS - 1)))"
    using n(1) by (rule smart_run_exact) simp
  moreover note smart_run_bounds [OF n(1)]
  ultimately show ?thesis
    unfolding n(2) using n(2) by (metis of_int_of_nat_eq)
qed

theorem smart_run_terminates_within_bounds_witness:
  "(2::int) \<le> 5 \<and>
     (\<exists>r. run_simulation (init 5) ''smart'' = Some (Inr r)
         \<and> r \<le> (5 - 1) * int NUM_CHUNKS
         \<and> \<lceil>log 2 (real_of_int 5)\<rceil> \<le> r)"
  using smart_run_terminates_within_bounds [of 5] by simp

section \<open>Runs of the naive strategy\<close>

lemma naive_indices:
  assumes n: "2 \<le> n" and r: "r < n - 1"
  shows "int (c * (n - 1) + r) mod (int n - 1) = int r"
    and "int (c * (n - 1) + r) div (int n - 1) = int c"
proof -
  have n1: "int n - 1 = int (n - 1)" using n by simp
  show "int (c * (n - 1) + r) mod (int n - 1) = int r"
    unfolding n1 using r by (simp flip: of_nat_mod)
  show "int (c * (n - 1) + r) div (int n - 1) = int c"
    unfolding n1 using r by (simp flip: of_nat_div)
qed

lemma naive_transfer_filling:
  assumes n: "2 \<le> n" and r: "r < n - 1" and c: "c < NUM_CHUNKS"
    and tm: "t mod (int n - 1) = int r" and td: "t div (int n - 1) = int c"
  shows "naive_transfer (filling_state n c r t) =
           Inr (\<lparr>num_servers = int n, current_tick = t,
                 servers = servers_with n (filling c (Suc r)) ((\<lambda>_. None)(0 := Some (int (Suc r))))\<rparr>,
                [(0, int (Suc r), int c)])"
proof -
  have tgt: "int r + 1 = int (Suc r)" by simp
  have hr: "filling c r (Suc r) = c" by (simp add: filling_def)
  have "Suc r < n" using r by simp
  then have "set_present (servers_with n (filling c r) (\<lambda>_. None)) (int (Suc r)) (int (filling c r (Suc r)))
               = Inr (servers_with n ((filling c r)(Suc r := Suc (filling c r (Suc r)))) (\<lambda>_. None))"
    using c by (intro set_present_with) (simp_all add: hr)
  moreover have "servers_with n ((filling c r)(Suc r := Suc c)) tt = servers_with n (filling c (Suc r)) tt" for tt
    by (intro servers_with_cong) (auto simp: filling_def)
  ultimately have p: "set_present (servers_with n (filling c r) (\<lambda>_. None)) (int (Suc r)) (int c)
               = Inr (servers_with n (filling c (Suc r)) (\<lambda>_. None))"
    by (simp add: hr)
  have "0 < n" using n by simp
  then have "set_transmitting (servers_with n (filling c (Suc r)) (\<lambda>_. None)) (int 0) (int (Suc r))
               = Inr (servers_with n (filling c (Suc r)) ((\<lambda>_. None)(0 := Some (int (Suc r)))))"
    by (rule set_transmitting_with)
  then have q: "set_transmitting (servers_with n (filling c (Suc r)) (\<lambda>_. None)) 0 (int (Suc r))
               = Inr (servers_with n (filling c (Suc r)) ((\<lambda>_. None)(0 := Some (int (Suc r)))))"
    by simp
  have z: "int n - 1 \<noteq> 0" using n by simp
  have lt: "int c < int NUM_CHUNKS" using c by simp
  show ?thesis
    unfolding naive_transfer_def filling_state_def Let_def
    by (simp only: Sim.simps tm td tgt z lt p q if_False if_True sum.case Sim.update_convs)
qed

lemma tick_naive_filling:
  assumes n: "2 \<le> n" and r: "r < n - 1" and c: "c < NUM_CHUNKS"
    and tm: "t mod (int n - 1) = int r" and td: "t div (int n - 1) = int c"
  shows "tick ''naive'' (filling_state n c r t) = Inr (filling_state n c (Suc r) (t + 1))"
  using naive_transfer_filling [OF assms]
  by (simp add: tick_def strategy_def reset_servers_with filling_state_def)

lemma filling_state_wrap:
  "filling_state n c (n - Suc 0) t = filling_state n (Suc c) 0 t"
  using filling_wrap [of n c] by (simp add: filling_state_def)

lemma run_naive_filling:
  assumes n: "2 \<le> n"
  shows "r < n - 1 \<Longrightarrow> c * (n - 1) + r \<le> NUM_CHUNKS * (n - 1) \<Longrightarrow>
     run_simulation (filling_state n c r (int (c * (n - 1) + r))) ''naive''
       = Some (Inr (int (NUM_CHUNKS * (n - 1))))"
proof (induction "NUM_CHUNKS * (n - 1) - (c * (n - 1) + r)" arbitrary: c r)
  case 0
  then have eq: "c * (n - 1) + r = NUM_CHUNKS * (n - 1)" by simp
  have "NUM_CHUNKS \<le> c"
  proof (rule ccontr)
    assume "\<not> NUM_CHUNKS \<le> c"
    then have "Suc c \<le> NUM_CHUNKS" by simp
    then have "Suc c * (n - 1) \<le> NUM_CHUNKS * (n - 1)" by (rule mult_le_mono1)
    with eq "0.prems"(1) show False by simp
  qed
  then have "is_complete (filling_state n c r (int (c * (n - 1) + r)))"
    using n "0.prems"(1) by (simp only: is_complete_filling)
  then have "run_simulation (filling_state n c r (int (c * (n - 1) + r))) ''naive''
               = Some (Inr (current_tick (filling_state n c r (int (c * (n - 1) + r)))))"
    by (rule run_simulation_complete)
  then show ?case
    by (simp only: current_tick_filling eq)
next
  case (Suc d)
  have c: "c < NUM_CHUNKS"
  proof (rule ccontr)
    assume "\<not> c < NUM_CHUNKS"
    then have "NUM_CHUNKS * (n - 1) \<le> c * (n - 1)" by (intro mult_le_mono1) simp
    with Suc.hyps(2) show False by arith
  qed
  then have nc: "\<not> is_complete (filling_state n c r (int (c * (n - 1) + r)))"
    using n Suc.prems(1) by (simp only: is_complete_filling)
  have "int (c * (n - 1) + r) + 1 = int (c * (n - 1) + Suc r)" by simp
  with tick_naive_filling [OF n Suc.prems(1) c naive_indices [OF n Suc.prems(1)]]
  have tk: "tick ''naive'' (filling_state n c r (int (c * (n - 1) + r)))
              = Inr (filling_state n c (Suc r) (int (c * (n - 1) + Suc r)))"
    by (simp only:)
  have step: "run_simulation (filling_state n c r (int (c * (n - 1) + r))) ''naive''
      = run_simulation (filling_state n c (Suc r) (int (c * (n - 1) + Suc r))) ''naive''"
    using nc tk by (rule run_simulation_step)
  show ?case
  proof (cases "Suc r < n - 1")
    case True
    have "run_simulation (filling_state n c (Suc r) (int (c * (n - 1) + Suc r))) ''naive''
            = Some (Inr (int (NUM_CHUNKS * (n - 1))))"
      using Suc.hyps(2) Suc.prems True by (intro Suc.hyps(1)) simp_all
    with step show ?thesis by (simp only:)
  next
    case False
    with Suc.prems(1) have r: "Suc r = n - Suc 0" by simp
    have t: "c * (n - 1) + Suc r = Suc c * (n - 1) + 0" using r by simp
    have "0 < n - 1" using n by simp
    moreover have "Suc c * (n - 1) + 0 \<le> NUM_CHUNKS * (n - 1)"
    proof -
      from c have "Suc c \<le> NUM_CHUNKS" by simp
      then have "Suc c * (n - 1) \<le> NUM_CHUNKS * (n - 1)" by (rule mult_le_mono1)
      then show ?thesis by (simp only: add_0_right)
    qed
    moreover have "d = NUM_CHUNKS * (n - 1) - (Suc c * (n - 1) + 0)"
      using Suc.hyps(2) r by simp
    ultimately have "run_simulation (filling_state n (Suc c) 0 (int (Suc c * (n - 1) + 0))) ''naive''
            = Some (Inr (int (NUM_CHUNKS * (n - 1))))"
      by (intro Suc.hyps(1))
    moreover have "run_simulation (filling_state n c r (int (c * (n - 1) + r))) ''naive''
        = run_simulation (filling_state n (Suc c) 0 (int (Suc c * (n - 1) + 0))) ''naive''"
      using step unfolding t unfolding r filling_state_wrap .
    ultimately show ?thesis by (simp only:)
  qed
qed

text \<open>The exact tick count of the naive strategy.\<close>

lemma naive_run_exact:
  assumes "2 \<le> n"
  shows "run_simulation (init (int n)) ''naive'' = Some (Inr (int (NUM_CHUNKS * (n - 1))))"
  using run_naive_filling [OF assms, of 0 0] assms by (simp add: init_filling)

text \<open>
  C2: for every \<open>num_servers = n \<ge> 2\<close>, \<open>run_simulation('naive')\<close> returns exactly
  \<open>(n - 1) * NUM_CHUNKS\<close> ticks; for \<open>n = 5\<close> this is 64.
\<close>

theorem naive_run_exact_ticks:
  "(2 \<le> n \<longrightarrow> run_simulation (init n) ''naive'' = Some (Inr ((n - 1) * int NUM_CHUNKS)))
   \<and> run_simulation (init 5) ''naive'' = Some (Inr 64)"
proof
  show "2 \<le> n \<longrightarrow> run_simulation (init n) ''naive'' = Some (Inr ((n - 1) * int NUM_CHUNKS))"
  proof
    assume "2 \<le> n"
    then have n: "2 \<le> nat n" "int (nat n) = n" by simp_all
    from naive_run_exact [OF n(1)] n show "run_simulation (init n) ''naive'' = Some (Inr ((n - 1) * int NUM_CHUNKS))"
      by (simp add: of_nat_diff mult.commute)
  qed
  have "run_simulation (init (int 5)) ''naive'' = Some (Inr (int (NUM_CHUNKS * (5 - 1))))"
    by (rule naive_run_exact) simp
  then show "run_simulation (init 5) ''naive'' = Some (Inr 64)"
    by (simp add: NUM_CHUNKS_def)
qed

theorem naive_run_exact_ticks_witness:
  "(2::int) \<le> 3 \<and> run_simulation (init 3) ''naive'' = Some (Inr 32)"
  using naive_run_exact_ticks [of 3] by (simp add: NUM_CHUNKS_def)

lemma doublings_1_2: "doublings (Suc 0) 2 = Suc 0"
  by (simp add: doublings.simps)

text \<open>
  C8: with two servers both strategies return exactly \<open>NUM_CHUNKS\<close>, that is 16, ticks.
\<close>

theorem two_servers_coincide:
  "run_simulation (init 2) ''smart'' = Some (Inr (int NUM_CHUNKS))
   \<and> run_simulation (init 2) ''naive'' = Some (Inr (int NUM_CHUNKS))
   \<and> NUM_CHUNKS = 16"
proof (intro conjI)
  have "run_simulation (init (int 2)) ''smart'' = Some (Inr (int (doublings 1 2) + int (NUM_CHUNKS - 1)))"
    by (rule smart_run_exact) simp_all
  then show "run_simulation (init 2) ''smart'' = Some (Inr (int NUM_CHUNKS))"
    by (simp add: doublings_1_2 NUM_CHUNKS_def)
  have "run_simulation (init (int 2)) ''naive'' = Some (Inr (int (NUM_CHUNKS * (2 - 1))))"
    by (rule naive_run_exact) simp
  then show "run_simulation (init 2) ''naive'' = Some (Inr (int NUM_CHUNKS))"
    by simp
  show "NUM_CHUNKS = 16" by (rule NUM_CHUNKS_def)
qed

section \<open>The algorithm name, settled\<close>

lemma doublings_1_3: "doublings (Suc 0) 3 = 2"
  by (simp add: doublings.simps)

text \<open>
  C9: for every algorithm name other than \<open>'naive'\<close>, whether \<open>'smart'\<close> or not, the
  strategy run in each tick is \<open>smart_transfer\<close>, and \<open>run_simulation\<close> behaves as it
  does for \<open>'smart'\<close>: the same result, the same error, or the same absence of a result.
  No name is rejected.
\<close>

theorem unknown_algorithm_is_smart:
  "algorithm \<noteq> ''naive'' \<Longrightarrow>
     strategy algorithm s = smart_transfer s
     \<and> run_simulation s algorithm = run_simulation s ''smart''"
proof
  assume alg: "algorithm \<noteq> ''naive''"
  then show "strategy algorithm s = smart_transfer s" by (simp add: strategy_def)
  from alg have "\<And>s. tick algorithm s = tick ''smart'' s" by (simp add: tick_def strategy_def)
  then show "run_simulation s algorithm = run_simulation s ''smart''"
    by (rule run_simulation_same_tick)
qed

theorem unknown_algorithm_is_smart_witness:
  "''fast'' \<noteq> ''naive''
   \<and> strategy ''fast'' (init 3) = smart_transfer (init 3)
   \<and> run_simulation (init 3) ''fast'' = run_simulation (init 3) ''smart''
   \<and> run_simulation (init 3) ''fast'' = Some (Inr 17)
   \<and> run_simulation (init 3) ''naive'' = Some (Inr 32)"
proof -
  have "run_simulation (init (int 3)) ''fast'' = Some (Inr (int (doublings 1 3) + int (NUM_CHUNKS - 1)))"
    by (rule smart_run_exact) simp_all
  then have f: "run_simulation (init 3) ''fast'' = Some (Inr 17)"
    by (simp add: doublings_1_3 NUM_CHUNKS_def)
  have "run_simulation (init (int 3)) ''naive'' = Some (Inr (int (NUM_CHUNKS * (3 - 1))))"
    by (rule naive_run_exact) simp
  then have n: "run_simulation (init 3) ''naive'' = Some (Inr 32)"
    by (simp add: NUM_CHUNKS_def)
  from unknown_algorithm_is_smart [of "''fast''" "init 3"] f n show ?thesis by simp
qed

section \<open>One call of the naive strategy\<close>

lemma py_index_nonneg: "0 \<le> i \<Longrightarrow> i < int len \<Longrightarrow> py_index len i = Inr (nat i)"
  by (simp add: py_index_def)

text \<open>
  C6: in a simulation of \<open>num_servers \<ge> 2\<close> servers with \<open>NUM_CHUNKS\<close> chunk slots each,
  at tick counter \<open>t \<ge> 0\<close>, \<open>naive_transfer\<close> raises nothing and computes
  \<open>target_id = t mod (num_servers - 1) + 1\<close>, which lies in \<open>1..num_servers-1\<close>, and
  \<open>chunk_id = t div (num_servers - 1)\<close>. If \<open>chunk_id < NUM_CHUNKS\<close> the new state is the
  old one with chunk \<open>chunk_id\<close> of server \<open>target_id\<close> marked present and server 0 marked
  as transmitting to \<open>target_id\<close>, and this is the one transfer of the tick; otherwise the
  state is unchanged and there is no transfer.
\<close>

theorem naive_transfer_formula:
  assumes n: "2 \<le> num_servers s" and t: "0 \<le> current_tick s"
    and len: "length (servers s) = nat (num_servers s)"
    and chunks: "list_all (\<lambda>sv. length (chunks sv) = NUM_CHUNKS) (servers s)"
  shows "naive_transfer s =
     (let target_id = current_tick s mod (num_servers s - 1) + 1;
          chunk_id = current_tick s div (num_servers s - 1);
          target = servers s ! nat target_id
      in if chunk_id < int NUM_CHUNKS
         then Inr (s\<lparr>servers := (servers s)
                     [nat target_id := target\<lparr>chunks := (chunks target)
                        [nat chunk_id := (chunks target ! nat chunk_id)\<lparr>present := True\<rparr>]\<rparr>,
                      0 := (servers s ! 0)\<lparr>is_transmitting := True,
                                             transmitting_to := Some target_id\<rparr>]\<rparr>,
                   [(0, target_id, chunk_id)])
         else Inr (s, []))
     \<and> 1 \<le> current_tick s mod (num_servers s - 1) + 1
     \<and> current_tick s mod (num_servers s - 1) + 1 \<le> num_servers s - 1"
proof -
  define target_id where "target_id = current_tick s mod (num_servers s - 1) + 1"
  define chunk_id where "chunk_id = current_tick s div (num_servers s - 1)"
  define target where "target = servers s ! nat target_id"
  have pos: "0 < num_servers s - 1" using n by simp
  have lo: "1 \<le> target_id"
    unfolding target_id_def using pos by simp
  have "current_tick s mod (num_servers s - 1) < num_servers s - 1"
    using pos by (rule pos_mod_bound)
  then have hi: "target_id \<le> num_servers s - 1"
    unfolding target_id_def by linarith
  have c0: "0 \<le> chunk_id"
    unfolding chunk_id_def using pos t by (simp add: pos_imp_zdiv_nonneg_iff)
  have tp: "nat target_id < length (servers s)" using lo hi len by simp
  have ix: "py_index (length (servers s)) target_id = Inr (nat target_id)"
    using lo tp by (intro py_index_nonneg) simp_all
  have "servers s ! nat target_id \<in> set (servers s)" using tp by simp
  with chunks have clen: "length (chunks target) = NUM_CHUNKS"
    by (simp add: target_def list_all_iff)
  have nz: "num_servers s - 1 \<noteq> 0" using pos by simp
  have "servers s \<noteq> []" using tp by auto
  then have z: "py_index (length (servers s)) 0 = Inr 0" by (simp add: py_index_def)
  have first: "nat target_id \<noteq> 0" using lo by simp
  show ?thesis
  proof (cases "chunk_id < int NUM_CHUNKS")
    case True
    with c0 clen have cx: "py_index (length (chunks target)) chunk_id = Inr (nat chunk_id)"
      by (intro py_index_nonneg) simp_all
    have sp: "set_present (servers s) target_id chunk_id =
                Inr ((servers s)[nat target_id := target\<lparr>chunks := (chunks target)
                        [nat chunk_id := (chunks target ! nat chunk_id)\<lparr>present := True\<rparr>]\<rparr>])"
      using ix cx by (simp add: set_present_def target_def)
    have st: "set_transmitting ((servers s)[nat target_id := x]) 0 target_id =
                Inr ((servers s)[nat target_id := x,
                       0 := (servers s ! 0)\<lparr>is_transmitting := True, transmitting_to := Some target_id\<rparr>])" for x
      using z first by (simp add: set_transmitting_def)
    from True nz sp st lo hi show ?thesis
      by (simp add: naive_transfer_def Let_def flip: target_id_def chunk_id_def target_def)
  next
    case False
    with nz lo hi show ?thesis
      by (simp add: naive_transfer_def Let_def flip: target_id_def chunk_id_def target_def)
  qed
qed

theorem naive_transfer_formula_witness:
  "2 \<le> num_servers (init 3) \<and> 0 \<le> current_tick (init 3)
   \<and> length (servers (init 3)) = nat (num_servers (init 3))
   \<and> list_all (\<lambda>sv. length (chunks sv) = NUM_CHUNKS) (servers (init 3))
   \<and> map_sum id snd (naive_transfer (init 3)) = Inr [(0, 1, 0)]"
proof -
  have h: "2 \<le> num_servers (init 3)" "0 \<le> current_tick (init 3)"
    "length (servers (init 3)) = nat (num_servers (init 3))"
    "list_all (\<lambda>sv. length (chunks sv) = NUM_CHUNKS) (servers (init 3))"
    by (auto simp: init_def list_all_iff)
  have v: "num_servers (init 3) = 3" "current_tick (init 3) = 0" by (simp_all add: init_def)
  from naive_transfer_formula [OF h] have "map_sum id snd (naive_transfer (init 3)) = Inr [(0, 1, 0)]"
    by (simp add: v Let_def NUM_CHUNKS_def)
  with h show ?thesis by blast
qed

section \<open>Chunks are never lost\<close>

lemma chunks_kept_refl: "list_all2 (\<lambda>c c'. present c \<longrightarrow> present c') cs cs"
  by (simp add: list_all2_same)

lemma never_lost_refl: "never_lost svs svs"
  by (simp add: never_lost_def list_all2_same)

lemma never_lost_trans: "never_lost a b \<Longrightarrow> never_lost b c \<Longrightarrow> never_lost a c"
  by (simp add: never_lost_def list_all2_conv_all_nth)

lemma never_lost_update:
  assumes "p < length svs"
    and "list_all2 (\<lambda>c c'. present c \<longrightarrow> present c') (chunks (svs ! p)) (chunks sv')"
  shows "never_lost svs (svs[p := sv'])"
  using assms
  by (auto simp: never_lost_def list_all2_conv_all_nth nth_list_update)

lemma py_index_bound: "py_index len i = Inr p \<Longrightarrow> p < len"
  by (auto simp: py_index_def split: if_splits)

lemma set_present_never_lost:
  assumes "set_present svs i j = Inr svs'"
  shows "never_lost svs svs'"
proof -
  from assms obtain p q where p: "py_index (length svs) i = Inr p"
    and q: "py_index (length (chunks (svs ! p))) j = Inr q"
    and svs': "svs' = svs[p := (svs ! p)\<lparr>chunks :=
                      (chunks (svs ! p))[q := (chunks (svs ! p) ! q)\<lparr>present := True\<rparr>]\<rparr>]"
    by (auto simp: set_present_def split: sum.splits)
  have "list_all2 (\<lambda>c c'. present c \<longrightarrow> present c') (chunks (svs ! p))
          ((chunks (svs ! p))[q := (chunks (svs ! p) ! q)\<lparr>present := True\<rparr>])"
    using py_index_bound [OF q] by (simp add: list_all2_conv_all_nth nth_list_update)
  with py_index_bound [OF p] show ?thesis
    unfolding svs' by (intro never_lost_update) simp_all
qed

lemma set_transmitting_never_lost:
  assumes "set_transmitting svs i t = Inr svs'"
  shows "never_lost svs svs'"
proof -
  from assms obtain p where p: "py_index (length svs) i = Inr p"
    and svs': "svs' = svs[p := (svs ! p)\<lparr>is_transmitting := True, transmitting_to := Some t\<rparr>]"
    by (auto simp: set_transmitting_def split: sum.splits)
  from py_index_bound [OF p] show ?thesis
    unfolding svs' by (intro never_lost_update) (simp_all add: chunks_kept_refl)
qed

lemma reset_never_lost: "never_lost svs (map reset_server svs)"
  by (simp add: never_lost_def list_all2_conv_all_nth reset_server_def)

lemma send_from_never_lost:
  assumes "send_from sp (svs, sent) = Inr (svs', sent')"
  shows "never_lost svs svs'"
  using assms
  by (auto simp: send_from_def never_lost_refl split: option.splits sum.splits
      dest!: set_present_never_lost set_transmitting_never_lost intro: never_lost_trans)

lemma smart_pass_never_lost:
  "smart_pass sps (svs, sent) = Inr (svs', sent') \<Longrightarrow> never_lost svs svs'"
proof (induction sps arbitrary: svs sent)
  case Nil
  then show ?case by (simp add: never_lost_refl)
next
  case (Cons sp sps)
  from Cons.prems obtain svs1 sent1 where 1: "send_from sp (svs, sent) = Inr (svs1, sent1)"
    and 2: "smart_pass sps (svs1, sent1) = Inr (svs', sent')"
    by (auto split: sum.splits)
  from send_from_never_lost [OF 1] Cons.IH [OF 2] show ?case
    by (rule never_lost_trans)
qed

lemma smart_transfer_never_lost:
  "smart_transfer s = Inr (s', sent) \<Longrightarrow> never_lost (servers s) (servers s')"
  by (auto simp: smart_transfer_def split: sum.splits dest: smart_pass_never_lost)

lemma naive_transfer_never_lost:
  "naive_transfer s = Inr (s', sent) \<Longrightarrow> never_lost (servers s) (servers s')"
  by (auto simp: naive_transfer_def Let_def never_lost_refl split: if_splits sum.splits
      dest!: set_present_never_lost set_transmitting_never_lost intro: never_lost_trans)

lemma tick_never_lost:
  assumes "tick algorithm s = Inr s'"
  shows "never_lost (servers s) (servers s')"
proof -
  from assms obtain s1 sent where 1: "strategy algorithm s = Inr (s1, sent)"
    and s': "servers s' = map reset_server (servers s1)"
    by (auto simp: tick_def split: sum.splits)
  from 1 have "never_lost (servers s) (servers s1)"
    by (auto simp: strategy_def split: if_splits
        dest: smart_transfer_never_lost naive_transfer_never_lost)
  then show ?thesis
    unfolding s' using reset_never_lost by (rule never_lost_trans)
qed

lemma reach_second_tick: "run_reaches ''smart'' (init 3) (seeding_state 3 2 1)"
proof -
  have i: "init 3 = seeding_state 3 1 0" using init_seeding [of 3] by simp
  have "\<not> is_complete (seeding_state 3 1 0)" by (rule is_complete_seeding) simp_all
  moreover have "tick ''smart'' (seeding_state 3 1 0) = Inr (seeding_state 3 2 1)"
    using tick_seeding [of 1 3 "''smart''" 0] by simp
  ultimately show ?thesis
    unfolding i by (intro run_reaches.step [OF run_reaches.start])
qed

text \<open>
  C5: along every run of either strategy, from any starting state and over any number of
  ticks, the server list keeps its shape and a chunk that is present stays present.
\<close>

theorem chunks_never_lost:
  "run_reaches algorithm s s' \<Longrightarrow> never_lost (servers s) (servers s')"
proof (induction rule: run_reaches.induct)
  case start
  show ?case by (rule never_lost_refl)
next
  case (step s1 s2)
  from step.IH tick_never_lost [OF step.hyps(3)] show ?case
    by (rule never_lost_trans)
qed

theorem chunks_never_lost_witness:
  "run_reaches ''smart'' (init 3) (seeding_state 3 2 1)
   \<and> never_lost (servers (init 3)) (servers (seeding_state 3 2 1))"
  using chunks_never_lost [OF reach_second_tick] reach_second_tick by simp

section \<open>The transfers of a tick\<close>

lemma run_reaches_complete_start:
  "run_reaches algorithm s s' \<Longrightarrow> is_complete s \<Longrightarrow> s' = s"
  by (induction rule: run_reaches.induct) auto

text \<open>The states of a run of the smart strategy are of the two shapes.\<close>

lemma smart_reaches:
  assumes n: "2 \<le> n" and alg: "algorithm \<noteq> ''naive''"
  shows "run_reaches algorithm (init (int n)) s \<Longrightarrow>
     (\<exists>m t. 1 \<le> m \<and> m < n \<and> s = seeding_state n m t)
     \<or> (\<exists>c t. 1 \<le> c \<and> c \<le> NUM_CHUNKS \<and> s = filling_state n c 0 t)"
proof (induction rule: run_reaches.induct)
  case start
  from n have "1 \<le> (1::nat) \<and> 1 < n \<and> init (int n) = seeding_state n 1 0"
    by (simp add: init_seeding)
  then show ?case by blast
next
  case (step s1 s2)
  from step.IH show ?case
  proof (elim disjE exE conjE)
    fix m t assume m: "1 \<le> m" "m < n" and s1: "s1 = seeding_state n m t"
    from tick_seeding [OF m alg, of t] step.hyps(3) s1
    have s2: "s2 = seeding_state n (min (2 * m) n) (t + 1)" by simp
    show ?thesis
    proof (cases "2 * m < n")
      case True
      with m s2 have "1 \<le> 2 * m \<and> 2 * m < n \<and> s2 = seeding_state n (2 * m) (t + 1)"
        by (simp add: min_absorb1)
      then show ?thesis by blast
    next
      case False
      with s2 have "s2 = filling_state n 1 0 (t + 1)"
        by (simp add: min_absorb2 seeding_full)
      then have "1 \<le> (1::nat) \<and> 1 \<le> NUM_CHUNKS \<and> s2 = filling_state n 1 0 (t + 1)"
        by (simp add: NUM_CHUNKS_def)
      then show ?thesis by blast
    qed
  next
    fix c t assume c: "1 \<le> c" "c \<le> NUM_CHUNKS" and s1: "s1 = filling_state n c 0 t"
    from step.hyps(2) s1 n have lt: "c < NUM_CHUNKS"
      by (simp add: is_complete_filling)
    from tick_filling [OF n c(1) lt alg, of t] step.hyps(3) s1
    have "s2 = filling_state n (Suc c) 0 (t + 1)" by simp
    with lt have "1 \<le> Suc c \<and> Suc c \<le> NUM_CHUNKS \<and> s2 = filling_state n (Suc c) 0 (t + 1)"
      by simp
    then show ?thesis by blast
  qed
qed

lemma smart_transfers_in_run:
  assumes reach: "run_reaches algorithm (init n) s" and alg: "algorithm \<noteq> ''naive''"
    and nc: "\<not> is_complete s" and tr: "smart_transfer s = Inr (s', sent)"
  shows "\<exists>d off c. sent = transfers_of d off c"
proof (cases "2 \<le> n")
  case True
  then have n: "2 \<le> nat n" "n = int (nat n)" by simp_all
  from reach n(2) have "run_reaches algorithm (init (int (nat n))) s" by simp
  from smart_reaches [OF n(1) alg this] show ?thesis
  proof (elim disjE exE conjE)
    fix m t assume "1 \<le> m" "m < nat n" "s = seeding_state (nat n) m t"
    with smart_transfer_seeding [of m "nat n" t] tr show ?thesis by auto
  next
    fix c t assume c: "1 \<le> c" "c \<le> NUM_CHUNKS" "s = filling_state (nat n) c 0 t"
    with nc n(1) have "c < NUM_CHUNKS" by (simp add: is_complete_filling)
    with smart_transfer_filling [OF n(1) c(1), of t] tr c(3) show ?thesis by auto
  qed
next
  case False
  then have "is_complete (init n)" by (intro init_complete) simp
  with reach have "s = init n" by (rule run_reaches_complete_start)
  with nc \<open>is_complete (init n)\<close> show ?thesis by simp
qed

lemma naive_transfers_short: "naive_transfer s = Inr (s', sent) \<Longrightarrow> length sent \<le> 1"
  by (auto simp: naive_transfer_def Let_def split: if_splits sum.splits)

lemma distinct_short: "length xs \<le> 1 \<Longrightarrow> distinct xs"
  by (cases xs) auto

lemma sources_of_transfers: "map t_source (transfers_of d off c) = map int [0..<d]"
  by (simp add: transfers_of_def t_source_def o_def)

lemma targets_of_transfers: "map t_target (transfers_of d off c) = map (\<lambda>i. int (i + off)) [0..<d]"
  by (simp add: transfers_of_def t_target_def o_def)

lemma distinct_sources: "distinct (map t_source (transfers_of d off c))"
  unfolding sources_of_transfers by (simp add: distinct_map inj_on_def)

lemma distinct_targets: "distinct (map t_target (transfers_of d off c))"
  unfolding targets_of_transfers by (simp add: distinct_map inj_on_def)

text \<open>
  Two ticks of the smart run with four servers, to try the statements on: the second tick,
  in which servers 0 and 1 both send, and the third, in which servers 0, 1 and 2 do.
\<close>

lemma upt_2: "[0..<2] = [0, Suc 0]"
  by (simp add: upt_rec)

lemma upt_3: "[0..<3] = [0, Suc 0, 2]"
  by (simp add: upt_rec)

lemma reach_two_senders: "run_reaches ''smart'' (init 4) (seeding_state 4 2 1)"
proof -
  have i: "init 4 = seeding_state 4 1 0" using init_seeding [of 4] by simp
  have "\<not> is_complete (seeding_state 4 1 0)" by (rule is_complete_seeding) simp_all
  moreover have "tick ''smart'' (seeding_state 4 1 0) = Inr (seeding_state 4 2 1)"
    using tick_seeding [of 1 4 "''smart''" 0] by simp
  ultimately show ?thesis
    unfolding i by (intro run_reaches.step [OF run_reaches.start])
qed

lemma two_senders_incomplete: "\<not> is_complete (seeding_state 4 2 1)"
  by (rule is_complete_seeding) simp_all

lemma two_senders_transfers:
  "strategy ''smart'' (seeding_state 4 2 1) =
     Inr (\<lparr>num_servers = 4, current_tick = 1,
           servers = servers_with 4 (seeding 4) (sending_to 2 2)\<rparr>, [(0, 2, 0), (1, 3, 0)])"
  using smart_transfer_seeding [of 2 4 1]
  by (simp add: strategy_def transfers_of_def upt_2)

lemma reach_three_senders: "run_reaches ''smart'' (init 4) (filling_state 4 1 0 2)"
proof -
  have "tick ''smart'' (seeding_state 4 2 1) = Inr (filling_state 4 1 0 2)"
    using tick_seeding [of 2 4 "''smart''" 1] by (simp add: seeding_full)
  with reach_two_senders two_senders_incomplete show ?thesis
    by (rule run_reaches.step)
qed

lemma three_senders_incomplete: "\<not> is_complete (filling_state 4 1 0 2)"
  by (simp add: is_complete_filling NUM_CHUNKS_def)

lemma three_senders_transfers:
  "strategy ''smart'' (filling_state 4 1 0 2) =
     Inr (\<lparr>num_servers = 4, current_tick = 2,
           servers = servers_with 4 (filling 1 3) (sending_to 3 1)\<rparr>,
          [(0, 1, 1), (1, 2, 1), (2, 3, 1)])"
  using smart_transfer_filling [of 4 1 2]
  by (simp add: strategy_def transfers_of_def upt_3 NUM_CHUNKS_def)

text \<open>
  C3: in every tick of every run of either strategy, started from a freshly constructed
  simulation of any size, the transfers performed by the strategy have pairwise different
  targets: no server receives more than one chunk in a tick.
\<close>

theorem one_transfer_per_target:
  assumes "run_reaches algorithm (init n) s" and "\<not> is_complete s"
    and "strategy algorithm s = Inr (s', sent)"
  shows "distinct (map t_target sent)"
proof (cases "algorithm = ''naive''")
  case True
  with assms(3) have "length sent \<le> 1"
    by (auto simp: strategy_def dest: naive_transfers_short)
  then show ?thesis by (intro distinct_short) simp
next
  case False
  with assms(3) have "smart_transfer s = Inr (s', sent)" by (simp add: strategy_def)
  from smart_transfers_in_run [OF assms(1) False assms(2) this]
  show ?thesis by (auto simp: distinct_targets)
qed

theorem one_transfer_per_target_witness:
  "run_reaches ''smart'' (init 4) (seeding_state 4 2 1)
   \<and> \<not> is_complete (seeding_state 4 2 1)
   \<and> strategy ''smart'' (seeding_state 4 2 1) =
       Inr (\<lparr>num_servers = 4, current_tick = 1,
             servers = servers_with 4 (seeding 4) (sending_to 2 2)\<rparr>, [(0, 2, 0), (1, 3, 0)])
   \<and> distinct (map t_target [(0, 2, 0), (1, 3, 0)])"
  using one_transfer_per_target [OF reach_two_senders two_senders_incomplete two_senders_transfers]
    reach_two_senders two_senders_incomplete two_senders_transfers
  by simp

text \<open>
  C7: in every tick of every run of either strategy, started from a freshly constructed
  simulation of any size, the transfers performed by the strategy have pairwise different
  sources: no server sends more than one chunk in a tick.
\<close>

theorem one_transfer_per_source:
  assumes "run_reaches algorithm (init n) s" and "\<not> is_complete s"
    and "strategy algorithm s = Inr (s', sent)"
  shows "distinct (map t_source sent)"
proof (cases "algorithm = ''naive''")
  case True
  with assms(3) have "length sent \<le> 1"
    by (auto simp: strategy_def dest: naive_transfers_short)
  then show ?thesis by (intro distinct_short) simp
next
  case False
  with assms(3) have "smart_transfer s = Inr (s', sent)" by (simp add: strategy_def)
  from smart_transfers_in_run [OF assms(1) False assms(2) this]
  show ?thesis by (auto simp: distinct_sources)
qed

theorem one_transfer_per_source_witness:
  "run_reaches ''smart'' (init 4) (filling_state 4 1 0 2)
   \<and> \<not> is_complete (filling_state 4 1 0 2)
   \<and> strategy ''smart'' (filling_state 4 1 0 2) =
       Inr (\<lparr>num_servers = 4, current_tick = 2,
             servers = servers_with 4 (filling 1 3) (sending_to 3 1)\<rparr>,
            [(0, 1, 1), (1, 2, 1), (2, 3, 1)])
   \<and> distinct (map t_source [(0, 1, 1), (1, 2, 1), (2, 3, 1)])"
  using one_transfer_per_source [OF reach_three_senders three_senders_incomplete three_senders_transfers]
    reach_three_senders three_senders_incomplete three_senders_transfers
  by simp

text \<open>
  The restriction to states of a run matters for the targets. The selection of the smart
  strategy marks senders only, so on a state that no run reaches it can give one server
  two chunks in one pass: here server 0 holds everything, server 1 two chunks and server 2
  none, and server 2 receives chunk 0 from server 0 and then chunk 1 from server 1.
\<close>

lemma fan_in_outside_runs:
  "map_sum id snd
     (smart_transfer \<lparr>num_servers = 3, current_tick = 0,
        servers = servers_with 3 (\<lambda>i. [16, 2, 0] ! i) (\<lambda>_. None)\<rparr>)
   = Inr [(0, 2, 0), (1, 2, 1)]"
  by code_simp

end
